theory Spec2Isabelle
  imports Main "HOL-Library.Word" "HOL-Library.Multiset" "HOL-Library.Char_ord"
    "HOL-Library.List_Lexorder"
begin

section \<open>Data model of main.go\<close>

text \<open>
  Go's \<open>int\<close> is a machine integer: 64 bits wide on the usual platforms, \<open>++\<close> wraps
  around, and \<open><\<close> compares the two's complement values (\<open>sint\<close>, \<open><s\<close>).
\<close>

type_synonym go_int = "64 word"

text \<open>
  \<open>type TodoItem struct { Id int; Name string; IsComplete bool }\<close>.
  Record fields are global names in HOL, and \<open>Id\<close> is HOL's identity relation, so the
  fields of the three structs carry the struct as a prefix.
\<close>

record TodoItem =
  item_Id :: go_int
  item_Name :: string
  item_IsComplete :: bool

type_synonym TodoItemCollection = "TodoItem list"

record PostTodoItem =
  post_Name :: string

record PutTodoItem =
  put_Name :: string
  put_IsComplete :: bool

text \<open>
  \<open>sync.RWMutex\<close>, as far as a handler that runs from its first to its last statement
  can see it: whether a writer holds it, and how many readers do. \<open>Lock\<close> and \<open>RLock\<close>
  return \<open>None\<close> where the Go call would block; nothing in this program releases a lock
  on behalf of a handler that has returned, so a handler blocked there never returns.
  \<open>Unlock\<close> and \<open>RUnlock\<close> are only ever called by the holder.
\<close>

record RWMutex =
  writer :: bool
  readers :: nat

definition Lock :: "RWMutex \<Rightarrow> RWMutex option" where
  "Lock m = (if writer m \<or> 0 < readers m then None else Some (m\<lparr>writer := True\<rparr>))"

definition Unlock :: "RWMutex \<Rightarrow> RWMutex" where
  "Unlock m = m\<lparr>writer := False\<rparr>"

definition RLock :: "RWMutex \<Rightarrow> RWMutex option" where
  "RLock m = (if writer m then None else Some (m\<lparr>readers := readers m + 1\<rparr>))"

definition RUnlock :: "RWMutex \<Rightarrow> RWMutex" where
  "RUnlock m = m\<lparr>readers := readers m - 1\<rparr>"

text \<open>
  \<open>type TodoHandler struct { items map[int]TodoItem; lastID int; sync.RWMutex }\<close>
\<close>

record TodoHandler =
  items :: "go_int \<rightharpoonup> TodoItem"
  lastID :: go_int
  mutex :: RWMutex

definition NewTodoHandler :: "go_int \<Rightarrow> TodoHandler" where
  "NewTodoHandler lastID0 =
     \<lparr>items = Map.empty, lastID = lastID0, mutex = \<lparr>writer = False, readers = 0\<rparr>\<rparr>"

section \<open>The HTTP boundary\<close>

text \<open>
  Of \<open>*gin.Context\<close> a handler reads two things, both computed outside this program:
  \<open>strconv.Atoi(c.Param("id"))\<close> and \<open>c.ShouldBindJSON(&v)\<close>. The context carries their
  results; \<open>None\<close> stands for \<open>err != nil\<close>.
\<close>

record Context =
  ParamId :: "go_int option"
  BindPost :: "PostTodoItem option"
  BindPut :: "PutTodoItem option"

text \<open>
  What a handler writes: \<open>c.JSON(code, v)\<close> with a collection, the map itself or a
  single item, \<open>c.String(code, format, args...)\<close>, or nothing at all.
\<close>

datatype Response =
    JSON_Collection nat TodoItemCollection
  | JSON_Map nat "go_int \<rightharpoonup> TodoItem"
  | JSON_Item nat TodoItem
  | String nat string "go_int list"
  | Nothing_written

datatype Outcome = Returned Response | Blocked

definition StatusOK :: nat where "StatusOK = 200"
definition StatusBadRequest :: nat where "StatusBadRequest = 400"
definition StatusNotFound :: nat where "StatusNotFound = 404"

definition fmt_NotFound :: string where
  "fmt_NotFound = ''Not found: Item with id '' @ [CHR 0x22] @ ''%v'' @ [CHR 0x22]"

fun status_of :: "Outcome \<Rightarrow> nat option" where
  "status_of (Returned (JSON_Collection code xs)) = Some code"
| "status_of (Returned (JSON_Map code m)) = Some code"
| "status_of (Returned (JSON_Item code x)) = Some code"
| "status_of (Returned (String code f args)) = Some code"
| "status_of (Returned Nothing_written) = None"
| "status_of Blocked = None"

section \<open>Sorting a TodoItemCollection\<close>

definition Len :: "TodoItemCollection \<Rightarrow> nat" where
  "Len t = length t"

definition Swap :: "TodoItemCollection \<Rightarrow> nat \<Rightarrow> nat \<Rightarrow> TodoItemCollection" where
  "Swap t i j = t[i := t ! j, j := t ! i]"

definition Less :: "TodoItemCollection \<Rightarrow> nat \<Rightarrow> nat \<Rightarrow> bool" where
  "Less t i j = (item_Id (t ! i) <s item_Id (t ! j))"

text \<open>
  \<open>sort.Sort(data)\<close> is Go's library sort. It reads \<open>n := data.Len()\<close> once and then
  works on the collection through \<open>Less\<close> and \<open>Swap\<close> only. Which swaps it makes depends
  on the length and on the library's version; on a short slice they are those of the
  library's \<open>insertionSort(data, 0, n)\<close>,

  \<^verbatim>\<open>for i := a + 1; i < b; i++ {
    for j := i; j > a && data.Less(j, j-1); j-- { data.Swap(j, j-1) } }\<close>

  Whatever the swaps, the result is a permutation in which no later element is \<open>Less\<close>
  than an earlier one, and where the ids differ pairwise there is only one such
  permutation. The model is the insertion sort.
\<close>

fun insertion_step :: "TodoItemCollection \<Rightarrow> nat \<Rightarrow> TodoItemCollection" where
  "insertion_step t 0 = t"
| "insertion_step t (Suc j) =
     (if Less t (Suc j) j then insertion_step (Swap t (Suc j) j) j else t)"

definition insertionSort :: "TodoItemCollection \<Rightarrow> nat \<Rightarrow> TodoItemCollection" where
  "insertionSort t n = fold (\<lambda>i t. insertion_step t i) [1..<n] t"

definition sort_Sort :: "TodoItemCollection \<Rightarrow> TodoItemCollection" where
  "sort_Sort t = insertionSort t (Len t)"

section \<open>The handlers\<close>

text \<open>
  \<open>for _, item := range th.items\<close> visits every entry of the map once, in an order Go
  leaves unspecified and changes from one loop to the next. The order is an argument of
  the model: \<open>range_of m kvs\<close> says that \<open>kvs\<close> is one order in which the entries of
  \<open>m\<close> can come.
\<close>

definition range_of :: "(go_int \<rightharpoonup> TodoItem) \<Rightarrow> (go_int \<times> TodoItem) list \<Rightarrow> bool" where
  "range_of m kvs = (distinct (map fst kvs) \<and> map_of kvs = m)"

text \<open>The loop body \<open>items[i] = item; i++\<close> over the entries that are left.\<close>

fun range_loop :: "(go_int \<times> TodoItem) list \<Rightarrow> nat \<Rightarrow> TodoItemCollection \<Rightarrow> TodoItemCollection" where
  "range_loop [] i its = its"
| "range_loop ((k, item) # rest) i its = range_loop rest (i + 1) (its[i := item])"

definition zero_TodoItem :: TodoItem where
  "zero_TodoItem = \<lparr>item_Id = 0, item_Name = [], item_IsComplete = False\<rparr>"

text \<open>
  \<open>GetItems\<close> of the revision at lines 75 to 89; \<open>len(th.items)\<close> is the number of
  entries the loop visits.
\<close>

definition GetItems :: "(go_int \<times> TodoItem) list \<Rightarrow> Context \<Rightarrow> TodoHandler \<Rightarrow> Outcome \<times> TodoHandler" where
  "GetItems kvs c th =
     (case RLock (mutex th) of
        None \<Rightarrow> (Blocked, th)
      | Some m \<Rightarrow>
          (let its = replicate (length kvs) zero_TodoItem;
               its = range_loop kvs 0 its;
               its = sort_Sort its
           in (Returned (JSON_Collection StatusOK its), th\<lparr>mutex := RUnlock m\<rparr>)))"

text \<open>
  \<open>GetItems\<close> of the other revision in the file, at lines 246 to 251: it passes
  \<open>th.items\<close> to \<open>c.JSON\<close> as it is. The rest of that revision is the first one again
  with \<open>lastID\<close> spelt \<open>lastId\<close>.
\<close>

definition GetItems_raw :: "Context \<Rightarrow> TodoHandler \<Rightarrow> Outcome \<times> TodoHandler" where
  "GetItems_raw c th =
     (case RLock (mutex th) of
        None \<Rightarrow> (Blocked, th)
      | Some m \<Rightarrow> (Returned (JSON_Map StatusOK (items th)), th\<lparr>mutex := RUnlock m\<rparr>))"





definition GetItemByID :: "Context \<Rightarrow> TodoHandler \<Rightarrow> Outcome \<times> TodoHandler" where
  "GetItemByID c th =
     (case ParamId c of
        None \<Rightarrow>
          (Returned (String StatusBadRequest ''Bad request: Id in path is not a valid id'' []), th)
      | Some id' \<Rightarrow>
          (case RLock (mutex th) of
             None \<Rightarrow> (Blocked, th)
           | Some m \<Rightarrow>
               (case items th id' of
                  None \<Rightarrow>
                    (Returned (String StatusNotFound fmt_NotFound [id']), th\<lparr>mutex := RUnlock m\<rparr>)
                | Some item \<Rightarrow>
                    (Returned (JSON_Item StatusOK item), th\<lparr>mutex := RUnlock m\<rparr>))))"

definition PostItem :: "Context \<Rightarrow> TodoHandler \<Rightarrow> Outcome \<times> TodoHandler" where
  "PostItem c th =
     (case BindPost c of
        None \<Rightarrow> (Returned (String StatusBadRequest ''Bad request'' []), th)
      | Some item \<Rightarrow>
          (case Lock (mutex th) of
             None \<Rightarrow> (Blocked, th)
           | Some m \<Rightarrow>
               (let lastID' = lastID th + 1;
                    items' = (items th)(lastID' \<mapsto>
                       \<lparr>item_Id = lastID', item_Name = post_Name item, item_IsComplete = False\<rparr>)
                in (Returned Nothing_written,
                    th\<lparr>items := items', lastID := lastID', mutex := Unlock m\<rparr>))))"

text \<open>
  \<open>PutItem\<close>. Its last statement is the tuple assignment
  \<open>item.Name, item.IsComplete, th.items[id] = putItem.Name, putItem.IsComplete, item\<close>.
  Go evaluates the three right-hand sides first and then assigns from left to right, so
  the third right-hand side is the value \<open>item\<close> has before the first two assignments.
  The deferred \<open>th.Unlock()\<close> runs on both returns.
\<close>

definition PutItem :: "Context \<Rightarrow> TodoHandler \<Rightarrow> Outcome \<times> TodoHandler" where
  "PutItem c th =
     (case BindPut c of
        None \<Rightarrow> (Returned (String StatusBadRequest ''Bad request'' []), th)
      | Some putItem \<Rightarrow>
          (case ParamId c of
             None \<Rightarrow>
               (Returned (String StatusBadRequest ''Bad request: Id in url is not a valid id'' []), th)
           | Some id' \<Rightarrow>
               (case Lock (mutex th) of
                  None \<Rightarrow> (Blocked, th)
                | Some m \<Rightarrow>
                    (case items th id' of
                       None \<Rightarrow>
                         (Returned (String StatusNotFound fmt_NotFound [id']), th\<lparr>mutex := Unlock m\<rparr>)
                     | Some item \<Rightarrow>
                         (let (r1, r2, r3) = (put_Name putItem, put_IsComplete putItem, item);
                              item = item\<lparr>item_Name := r1\<rparr>;
                              item = item\<lparr>item_IsComplete := r2\<rparr>;
                              items' = (items th)(id' \<mapsto> r3)
                          in (Returned Nothing_written, th\<lparr>items := items', mutex := Unlock m\<rparr>))))))"

text \<open>\<open>DeleteItem\<close>; the not-found branch returns before \<open>th.Unlock()\<close>.\<close>

definition DeleteItem :: "Context \<Rightarrow> TodoHandler \<Rightarrow> Outcome \<times> TodoHandler" where
  "DeleteItem c th =
     (case ParamId c of
        None \<Rightarrow>
          (Returned (String StatusBadRequest ''Bad request: Id in url is not a valid id'' []), th)
      | Some id' \<Rightarrow>
          (case Lock (mutex th) of
             None \<Rightarrow> (Blocked, th)
           | Some m \<Rightarrow>
               (case items th id' of
                  None \<Rightarrow> (Returned (String StatusNotFound fmt_NotFound [id']), th\<lparr>mutex := m\<rparr>)
                | Some _ \<Rightarrow>
                    (Returned Nothing_written, th\<lparr>items := (items th)(id' := None), mutex := Unlock m\<rparr>))))"

section \<open>Requests and runs\<close>

text \<open>The five routes \<open>main\<close> registers; a list request names the order its loop takes.\<close>

datatype Request =
    GET_TodoItems "(go_int \<times> TodoItem) list" Context
  | GET_TodoItem Context
  | POST_TodoItem Context
  | PUT_TodoItem Context
  | DELETE_TodoItem Context

fun serve :: "Request \<Rightarrow> TodoHandler \<Rightarrow> Outcome \<times> TodoHandler" where
  "serve (GET_TodoItems kvs c) th = GetItems kvs c th"
| "serve (GET_TodoItem c) th = GetItemByID c th"
| "serve (POST_TodoItem c) th = PostItem c th"
| "serve (PUT_TodoItem c) th = PutItem c th"
| "serve (DELETE_TodoItem c) th = DeleteItem c th"

fun run :: "Request list \<Rightarrow> TodoHandler \<Rightarrow> TodoHandler" where
  "run [] th = th"
| "run (r # rs) th = run rs (snd (serve r th))"

text \<open>The states the server can be in: those some run from \<open>NewTodoHandler(0)\<close> ends in.\<close>

inductive reachable :: "TodoHandler \<Rightarrow> bool" where
  initial: "reachable (NewTodoHandler 0)"
| step: "reachable th \<Longrightarrow> reachable (snd (serve r th))"

section \<open>Notions the properties are stated with\<close>

text \<open>The mutex is free: a handler that asks for it, shared or exclusive, gets it.\<close>

definition unlocked :: "RWMutex \<Rightarrow> bool" where
  "unlocked m = (\<not> writer m \<and> readers m = 0)"

text \<open>Every item is stored under its own \<open>Id\<close>.\<close>

definition ids_match_keys :: "TodoHandler \<Rightarrow> bool" where
  "ids_match_keys th = (\<forall>k item. items th k = Some item \<longrightarrow> item_Id item = k)"

text \<open>
  The ids a run hands out: \<open>PostItem\<close> answers a created item with an empty response,
  and the id it gave the item is the counter after the call.
\<close>

fun is_Create :: "Request \<Rightarrow> bool" where
  "is_Create (POST_TodoItem c) = True"
| "is_Create r = False"

fun assigned_ids :: "Request list \<Rightarrow> TodoHandler \<Rightarrow> go_int list" where
  "assigned_ids [] th = []"
| "assigned_ids (r # rs) th =
     (if is_Create r \<and> fst (serve r th) = Returned Nothing_written
      then [lastID (snd (serve r th))] else [])
     @ assigned_ids rs (snd (serve r th))"

text \<open>
  Requests as a client sends them: a body \<open>{name}\<close>, a path id with a body
  \<open>{name, isComplete}\<close>, and a path id alone.
\<close>

definition post_ctx :: "string \<Rightarrow> Context" where
  "post_ctx n = \<lparr>ParamId = None, BindPost = Some \<lparr>post_Name = n\<rparr>, BindPut = None\<rparr>"

definition put_ctx :: "go_int \<Rightarrow> string \<Rightarrow> bool \<Rightarrow> Context" where
  "put_ctx k n b =
     \<lparr>ParamId = Some k, BindPost = None, BindPut = Some \<lparr>put_Name = n, put_IsComplete = b\<rparr>\<rparr>"

definition id_ctx :: "go_int \<Rightarrow> Context" where
  "id_ctx k = \<lparr>ParamId = Some k, BindPost = None, BindPut = None\<rparr>"

definition list_ctx :: Context where
  "list_ctx = \<lparr>ParamId = None, BindPost = None, BindPut = None\<rparr>"

text \<open>The store after \<open>Create("Buy milk")\<close> and \<open>Create("Walk dog")\<close>.\<close>

definition buy_milk :: TodoItem where
  "buy_milk = \<lparr>item_Id = 1, item_Name = ''Buy milk'', item_IsComplete = False\<rparr>"

definition walk_dog :: TodoItem where
  "walk_dog = \<lparr>item_Id = 2, item_Name = ''Walk dog'', item_IsComplete = False\<rparr>"

definition two_items :: TodoHandler where
  "two_items =
     run [POST_TodoItem (post_ctx ''Buy milk''), POST_TodoItem (post_ctx ''Walk dog'')]
       (NewTodoHandler 0)"




text \<open>
  A run that keeps the store small: round \<open>i\<close> creates an item and deletes the id
  \<open>i + 1\<close> it was given. \<open>empty_at th i\<close> is the state between rounds.
\<close>

definition create_delete :: "nat \<Rightarrow> Request list" where
  "create_delete i =
     [POST_TodoItem (post_ctx ''a''), DELETE_TodoItem (id_ctx (of_nat (Suc i)))]"

definition churn :: "nat \<Rightarrow> Request list" where
  "churn n = concat (map create_delete [0..<n])"

definition empty_at :: "TodoHandler \<Rightarrow> nat \<Rightarrow> bool" where
  "empty_at th i = (unlocked (mutex th) \<and> items th = Map.empty \<and> lastID th = of_nat i)"

section \<open>The mutex and the handlers once they hold it\<close>

lemma Lock_unlocked: "unlocked m \<Longrightarrow> Lock m = Some (m\<lparr>writer := True\<rparr>)"
  by (simp add: Lock_def unlocked_def)

lemma Unlock_Lock: "unlocked m \<Longrightarrow> Unlock (m\<lparr>writer := True\<rparr>) = m"
  by (simp add: Unlock_def unlocked_def)

lemma RLock_free: "\<not> writer m \<Longrightarrow> RLock m = Some (m\<lparr>readers := Suc (readers m)\<rparr>)"
  by (simp add: RLock_def)

lemma RUnlock_RLock: "RUnlock (m\<lparr>readers := Suc (readers m)\<rparr>) = m"
  by (simp add: RUnlock_def)

lemma PostItem_unlocked:
  "BindPost c = Some p \<Longrightarrow> unlocked (mutex th) \<Longrightarrow>
   PostItem c th = (Returned Nothing_written,
      th\<lparr>items := (items th)(lastID th + 1 \<mapsto>
            \<lparr>item_Id = lastID th + 1, item_Name = post_Name p, item_IsComplete = False\<rparr>),
         lastID := lastID th + 1\<rparr>)"
  by (simp add: PostItem_def Lock_unlocked Unlock_Lock Let_def)

lemma PutItem_unlocked:
  "BindPut c = Some p \<Longrightarrow> ParamId c = Some k \<Longrightarrow> unlocked (mutex th) \<Longrightarrow>
   PutItem c th =
     (case items th k of
        None \<Rightarrow> (Returned (String StatusNotFound fmt_NotFound [k]), th)
      | Some item \<Rightarrow> (Returned Nothing_written, th))"
  by (simp add: PutItem_def Lock_unlocked Unlock_Lock Let_def fun_upd_idem split: option.split)

lemma DeleteItem_unlocked:
  "ParamId c = Some k \<Longrightarrow> unlocked (mutex th) \<Longrightarrow>
   DeleteItem c th =
     (case items th k of
        None \<Rightarrow> (Returned (String StatusNotFound fmt_NotFound [k]), th\<lparr>mutex := (mutex th)\<lparr>writer := True\<rparr>\<rparr>)
      | Some item \<Rightarrow> (Returned Nothing_written, th\<lparr>items := (items th)(k := None)\<rparr>))"
  by (simp add: DeleteItem_def Lock_unlocked Unlock_Lock Let_def split: option.split)

lemma GetItemByID_free:
  "ParamId c = Some k \<Longrightarrow> \<not> writer (mutex th) \<Longrightarrow>
   GetItemByID c th =
     (case items th k of
        None \<Rightarrow> (Returned (String StatusNotFound fmt_NotFound [k]), th)
      | Some item \<Rightarrow> (Returned (JSON_Item StatusOK item), th))"
  by (simp add: GetItemByID_def RLock_free RUnlock_RLock split: option.split)

lemma range_loop_fill:
  "i + length kvs = length its \<Longrightarrow> range_loop kvs i its = take i its @ map snd kvs"
proof (induction kvs i its rule: range_loop.induct)
  case (1 i its)
  then show ?case by simp
next
  case (2 k item rest i its)
  then show ?case by (simp add: take_Suc_conv_app_nth upd_conv_take_nth_drop)
qed

lemma GetItems_free:
  "\<not> writer (mutex th) \<Longrightarrow>
   GetItems kvs c th = (Returned (JSON_Collection StatusOK (sort_Sort (map snd kvs))), th)"
  by (simp add: GetItems_def RLock_free RUnlock_RLock range_loop_fill)

lemma GetItems_raw_free:
  "\<not> writer (mutex th) \<Longrightarrow> GetItems_raw c th = (Returned (JSON_Map StatusOK (items th)), th)"
  by (simp add: GetItems_raw_def RLock_free RUnlock_RLock)

lemma range_of_mset:
  assumes "range_of m kvs"
  shows "mset (map snd kvs) = image_mset (\<lambda>k. the (m k)) (mset_set (dom m))"
proof -
  from assms have d: "distinct (map fst kvs)" and m: "m = map_of kvs"
    by (simp_all add: range_of_def)
  have "\<And>p. p \<in> set kvs \<Longrightarrow> snd p = the (map_of kvs (fst p))"
  proof -
    fix p assume "p \<in> set kvs"
    then have "(fst p, snd p) \<in> set kvs" by simp
    with d have "map_of kvs (fst p) = Some (snd p)" by (rule map_of_is_SomeI)
    then show "snd p = the (map_of kvs (fst p))" by simp
  qed
  then have "map snd kvs = map (\<lambda>p. the (map_of kvs (fst p))) kvs"
    by (intro map_cong refl)
  also have "\<dots> = map (\<lambda>k. the (m k)) (map fst kvs)"
    by (simp add: m comp_def)
  finally have "mset (map snd kvs) = image_mset (\<lambda>k. the (m k)) (mset (map fst kvs))"
    by (simp only: mset_map)
  moreover have "mset_set (dom m) = mset (map fst kvs)"
    using mset_set_set [OF d] by (simp add: m dom_map_of_conv_image_fst)
  ultimately show ?thesis by simp
qed

lemma length_insertion_step: "length (insertion_step t j) = length t"
  by (induction j arbitrary: t) (simp_all add: Swap_def)

lemma insertion_step_append:
  "j < length xs \<Longrightarrow> insertion_step (xs @ zs) j = insertion_step xs j @ zs"
proof (induction j arbitrary: xs)
  case 0
  then show ?case by simp
next
  case (Suc j)
  from Suc.prems have l: "Less (xs @ zs) (Suc j) j = Less xs (Suc j) j"
    by (simp add: Less_def nth_append)
  from Suc.prems have s: "Swap (xs @ zs) (Suc j) j = Swap xs (Suc j) j @ zs"
    by (simp add: Swap_def nth_append list_update_append)
  from Suc.prems have "j < length (Swap xs (Suc j) j)"
    by (simp add: Swap_def)
  from Suc.IH [OF this] show ?case
    by (simp add: l s)
qed

lemma insertion_step_inserts:
  "length ys = j \<Longrightarrow> sorted (map (\<lambda>x. sint (item_Id x)) ys) \<Longrightarrow>
   sorted (map (\<lambda>x. sint (item_Id x)) (insertion_step (ys @ [x]) j))
   \<and> mset (insertion_step (ys @ [x]) j) = add_mset x (mset ys)"
proof (induction j arbitrary: ys)
  case 0
  then show ?case by simp
next
  case (Suc j)
  from Suc.prems obtain ys' a where ys: "ys = ys' @ [a]" and len: "length ys' = j"
    by (metis length_Suc_conv_rev)
  from Suc.prems(2) have so: "sorted (map (\<lambda>x. sint (item_Id x)) ys')"
    and le: "\<forall>y \<in> set ys'. sint (item_Id y) \<le> sint (item_Id a)"
    by (auto simp: ys sorted_append)
  have l: "Less (ys @ [x]) (Suc j) j = (item_Id x <s item_Id a)"
    by (simp add: Less_def ys nth_append len)
  have s: "Swap (ys @ [x]) (Suc j) j = (ys' @ [x]) @ [a]"
    by (simp add: Swap_def ys nth_append len list_update_append)
  show ?case
  proof (cases "item_Id x <s item_Id a")
    case True
    from Suc.IH [OF len so]
    have ih: "sorted (map (\<lambda>x. sint (item_Id x)) (insertion_step (ys' @ [x]) j))"
      and ms: "mset (insertion_step (ys' @ [x]) j) = add_mset x (mset ys')"
      by simp_all
    from ms have "set (insertion_step (ys' @ [x]) j) = insert x (set ys')"
      by (metis set_mset_add_mset_insert set_mset_mset)
    with le True
    have bd: "\<forall>y \<in> set (insertion_step (ys' @ [x]) j). sint (item_Id y) \<le> sint (item_Id a)"
      by (auto simp: word_sless_alt)
    have "insertion_step (ys @ [x]) (Suc j) = insertion_step ((ys' @ [x]) @ [a]) j"
      using True by (simp only: insertion_step.simps l s if_True)
    also have "\<dots> = insertion_step (ys' @ [x]) j @ [a]"
      by (rule insertion_step_append) (simp add: len)
    finally have e: "insertion_step (ys @ [x]) (Suc j) = insertion_step (ys' @ [x]) j @ [a]" .
    show ?thesis
      unfolding e using ih ms bd by (simp add: sorted_append ys)
  next
    case False
    then have e: "insertion_step (ys @ [x]) (Suc j) = ys @ [x]"
      by (simp only: insertion_step.simps l if_False)
    from False have "sint (item_Id a) \<le> sint (item_Id x)"
      by (simp add: word_sless_alt)
    with Suc.prems(2) le show ?thesis
      unfolding e by (auto simp: ys sorted_append)
  qed
qed

lemma insertionSort_prefix:
  "Suc k \<le> length t \<Longrightarrow>
   sorted (map (\<lambda>x. sint (item_Id x)) (take (Suc k) (insertionSort t (Suc k))))
   \<and> drop (Suc k) (insertionSort t (Suc k)) = drop (Suc k) t
   \<and> mset (insertionSort t (Suc k)) = mset t
   \<and> length (insertionSort t (Suc k)) = length t"
proof (induction k)
  case 0
  then show ?case
    by (cases t) (simp_all add: insertionSort_def)
next
  case (Suc k)
  let ?r = "insertionSort t (Suc k)"
  from Suc have so: "sorted (map (\<lambda>x. sint (item_Id x)) (take (Suc k) ?r))"
    and dr: "drop (Suc k) ?r = drop (Suc k) t"
    and ms: "mset ?r = mset t" and len: "length ?r = length t"
    by simp_all
  from Suc.prems len have k: "Suc k < length ?r" by simp
  then have split: "?r = (take (Suc k) ?r @ [?r ! Suc k]) @ drop (Suc (Suc k)) ?r"
    by (simp add: Cons_nth_drop_Suc)
  have lt: "length (take (Suc k) ?r) = Suc k"
    using k by auto
  define p where "p = insertion_step (take (Suc k) ?r @ [?r ! Suc k]) (Suc k)"
  have step: "insertionSort t (Suc (Suc k)) = p @ drop (Suc (Suc k)) ?r"
  proof -
    have "insertionSort t (Suc (Suc k)) = insertion_step ?r (Suc k)"
      by (simp add: insertionSort_def)
    also have "\<dots> = insertion_step ((take (Suc k) ?r @ [?r ! Suc k]) @ drop (Suc (Suc k)) ?r) (Suc k)"
      using split by simp
    also have "\<dots> = p @ drop (Suc (Suc k)) ?r"
      unfolding p_def by (rule insertion_step_append) (simp only: length_append lt, simp)
    finally show ?thesis .
  qed
  from insertion_step_inserts [OF lt so, of "?r ! Suc k"]
  have ps: "sorted (map (\<lambda>x. sint (item_Id x)) p)"
    and pm: "mset p = add_mset (?r ! Suc k) (mset (take (Suc k) ?r))"
    unfolding p_def by blast+
  have pl: "length p = Suc (Suc k)"
    unfolding p_def by (simp only: length_insertion_step length_append lt, simp)
  have "mset ?r = mset (take (Suc k) ?r) + mset (drop (Suc k) ?r)"
    by (metis append_take_drop_id mset_append)
  also have "drop (Suc k) ?r = ?r ! Suc k # drop (Suc (Suc k)) ?r"
    using k by (simp add: Cons_nth_drop_Suc)
  finally have "mset (p @ drop (Suc (Suc k)) ?r) = mset ?r"
    by (simp add: pm)
  moreover have "drop (Suc (Suc k)) ?r = drop (Suc (Suc k)) t"
    using dr by (metis drop_Suc drop_tl)
  ultimately show ?case
    using ps pl len ms Suc.prems by (simp add: step)
qed

lemma insertionSort_length:
  assumes "n = length t"
  shows "sorted (map (\<lambda>x. sint (item_Id x)) (insertionSort t n)) \<and> mset (insertionSort t n) = mset t"
proof (cases n)
  case 0
  with assms show ?thesis by (simp add: insertionSort_def)
next
  case (Suc k)
  with assms have "Suc k \<le> length t" by simp
  from insertionSort_prefix [OF this]
  have s: "sorted (map (\<lambda>x. sint (item_Id x)) (take (Suc k) (insertionSort t (Suc k))))"
    and m: "mset (insertionSort t (Suc k)) = mset t"
    and l: "length (insertionSort t (Suc k)) = length t"
    by blast+
  from l assms Suc have "take (Suc k) (insertionSort t (Suc k)) = insertionSort t (Suc k)"
    by simp
  with s m show ?thesis by (simp add: Suc)
qed

lemma sorted_sort_Sort: "sorted (map (\<lambda>x. sint (item_Id x)) (sort_Sort t))"
  using insertionSort_length [of "Len t" t] by (simp add: sort_Sort_def Len_def)

lemma mset_sort_Sort: "mset (sort_Sort t) = mset t"
  using insertionSort_length [of "Len t" t] by (simp add: sort_Sort_def Len_def)

lemma sort_Sort_sorted: "sorted_wrt (\<lambda>a b. item_Id a \<le>s item_Id b) (sort_Sort t)"
  using sorted_sort_Sort [of t] by (simp add: sorted_map word_sle_eq)

lemma sort_Sort_no_Less:
  assumes "i < j" and "j < Len (sort_Sort t)"
  shows "\<not> Less (sort_Sort t) j i"
proof -
  from sort_Sort_sorted [of t] assms
  have "item_Id (sort_Sort t ! i) \<le>s item_Id (sort_Sort t ! j)"
    by (simp add: sorted_wrt_iff_nth_less Len_def)
  then show ?thesis
    by (simp add: Less_def word_sle_eq word_sless_alt)
qed

text \<open>
  Where the ids differ pairwise, every permutation that has no later element \<open>Less\<close> than
  an earlier one is the one the model computes.
\<close>

lemma sort_Sort_unique:
  assumes ms: "mset ys = mset t"
    and inj: "inj_on (\<lambda>x. sint (item_Id x)) (set t)"
    and no: "\<And>i j. i < j \<Longrightarrow> j < Len ys \<Longrightarrow> \<not> Less ys j i"
  shows "ys = sort_Sort t"
proof -
  have "sorted (map (\<lambda>x. sint (item_Id x)) ys)"
    unfolding sorted_map sorted_wrt_iff_nth_less
    using no by (simp add: Len_def Less_def word_sless_alt not_less)
  from sort_key_inj_key_eq [OF ms [symmetric] inj this]
  have "sort_key (\<lambda>x. sint (item_Id x)) t = ys" .
  moreover from sort_key_inj_key_eq [OF mset_sort_Sort [symmetric] inj sorted_sort_Sort]
  have "sort_key (\<lambda>x. sint (item_Id x)) t = sort_Sort t" .
  ultimately show ?thesis by simp
qed

lemma ids_match_keys_inj:
  assumes inv: "ids_match_keys th"
  shows "inj_on (\<lambda>x. sint (item_Id x)) (ran (items th))"
proof (rule inj_onI)
  fix x y
  assume "x \<in> ran (items th)" and "y \<in> ran (items th)"
    and eq: "sint (item_Id x) = sint (item_Id y)"
  then obtain k l where k: "items th k = Some x" and l: "items th l = Some y"
    by (auto simp: ran_def)
  from inv k l have "item_Id x = k" and "item_Id y = l"
    by (simp_all add: ids_match_keys_def)
  with eq have "k = l" by (simp add: signed_word_eqI)
  with k l show "x = y" by simp
qed

lemma range_of_set:
  assumes "range_of m kvs"
  shows "set (map snd kvs) = ran m"
proof -
  from assms have d: "distinct (map fst kvs)" and m: "m = map_of kvs"
    by (simp_all add: range_of_def)
  show ?thesis unfolding m by (rule ran_distinct [OF d, symmetric, unfolded set_map [symmetric]])
qed

lemma sort_Sort_range_unique:
  assumes inv: "ids_match_keys th"
    and r1: "range_of (items th) kvs1" and r2: "range_of (items th) kvs2"
  shows "sort_Sort (map snd kvs1) = sort_Sort (map snd kvs2)"
proof -
  have ms: "mset (sort_Sort (map snd kvs1)) = mset (map snd kvs2)"
    using range_of_mset [OF r1] range_of_mset [OF r2] by (simp add: mset_sort_Sort)
  have inj: "inj_on (\<lambda>x. sint (item_Id x)) (set (map snd kvs2))"
    using ids_match_keys_inj [OF inv] range_of_set [OF r2] by simp
  have no: "\<And>i j. i < j \<Longrightarrow> j < Len (sort_Sort (map snd kvs1))
      \<Longrightarrow> \<not> Less (sort_Sort (map snd kvs1)) j i"
    by (rule sort_Sort_no_Less)
  from sort_Sort_unique [OF ms inj no] show ?thesis .
qed

section \<open>What the handlers leave alone\<close>

lemma PutItem_items: "items (snd (PutItem c th)) = items th"
  by (simp add: PutItem_def Let_def fun_upd_idem split: option.split)

lemma PutItem_lastID: "lastID (snd (PutItem c th)) = lastID th"
  by (simp add: PutItem_def Let_def split: option.split)

lemma PutItem_releases: "unlocked (mutex th) \<Longrightarrow> mutex (snd (PutItem c th)) = mutex th"
  by (simp add: PutItem_def Let_def Lock_unlocked Unlock_Lock split: option.split)

lemma PostItem_ids_match_keys: "ids_match_keys th \<Longrightarrow> ids_match_keys (snd (PostItem c th))"
  by (simp add: PostItem_def Let_def ids_match_keys_def split: option.split)

lemma PutItem_ids_match_keys: "ids_match_keys th \<Longrightarrow> ids_match_keys (snd (PutItem c th))"
  by (simp add: ids_match_keys_def PutItem_items)

lemma DeleteItem_ids_match_keys: "ids_match_keys th \<Longrightarrow> ids_match_keys (snd (DeleteItem c th))"
  by (simp add: DeleteItem_def ids_match_keys_def split: option.split)

lemma GetItems_items: "items (snd (GetItems kvs c th)) = items th"
  by (simp add: GetItems_def Let_def split: option.split)

lemma GetItemByID_items: "items (snd (GetItemByID c th)) = items th"
  by (simp add: GetItemByID_def split: option.split)

lemma GetItems_ids_match_keys: "ids_match_keys th \<Longrightarrow> ids_match_keys (snd (GetItems kvs c th))"
  by (simp add: ids_match_keys_def GetItems_items)

lemma GetItemByID_ids_match_keys: "ids_match_keys th \<Longrightarrow> ids_match_keys (snd (GetItemByID c th))"
  by (simp add: ids_match_keys_def GetItemByID_items)

lemma serve_ids_match_keys: "ids_match_keys th \<Longrightarrow> ids_match_keys (snd (serve r th))"
  by (cases r)
    (simp_all add: PostItem_ids_match_keys PutItem_ids_match_keys DeleteItem_ids_match_keys
      GetItems_ids_match_keys GetItemByID_ids_match_keys)

lemma NewTodoHandler_ids_match_keys: "ids_match_keys (NewTodoHandler n)"
  by (simp add: ids_match_keys_def NewTodoHandler_def)

lemma reachable_invariant: "reachable th \<Longrightarrow> ids_match_keys th"
  by (induction rule: reachable.induct)
    (simp_all add: NewTodoHandler_ids_match_keys serve_ids_match_keys)

lemma reachable_run: "reachable th \<Longrightarrow> reachable (run rs th)"
  by (induction rs arbitrary: th) (simp_all add: reachable.step)

lemma two_items_eq:
  "two_items = \<lparr>items = [1 \<mapsto> buy_milk, 2 \<mapsto> walk_dog], lastID = 2,
                 mutex = \<lparr>writer = False, readers = 0\<rparr>\<rparr>"
  by (simp add: two_items_def buy_milk_def walk_dog_def PostItem_def post_ctx_def
      NewTodoHandler_def Lock_def Unlock_def Let_def)

lemma reachable_two_items: "reachable two_items"
  unfolding two_items_def by (rule reachable_run [OF reachable.initial])

section \<open>The id counter along a run\<close>

lemma sint_succ:
  fixes x :: go_int
  assumes "sint x < 2 ^ 63 - 1"
  shows "sint (x + 1) = sint x + 1"
proof -
  have lo: "- (2 ^ 63) \<le> sint x" using sint_ge [of x] by simp
  have "sint (x + 1) = signed_take_bit 63 (sint x + 1)"
    by (simp add: sint_word_ariths)
  also have "\<dots> = sint x + 1"
    using lo assms by (simp add: signed_take_bit_int_eq_self)
  finally show ?thesis .
qed

lemma PostItem_outcome:
  "fst (PostItem c th) = Returned Nothing_written \<Longrightarrow> lastID (snd (PostItem c th)) = lastID th + 1"
  by (simp add: PostItem_def Let_def split: option.splits)

lemma PostItem_no_create:
  "fst (PostItem c th) \<noteq> Returned Nothing_written \<Longrightarrow> snd (PostItem c th) = th"
  by (simp add: PostItem_def Let_def split: option.splits)

lemma DeleteItem_lastID: "lastID (snd (DeleteItem c th)) = lastID th"
  by (simp add: DeleteItem_def split: option.split)

lemma GetItems_lastID: "lastID (snd (GetItems kvs c th)) = lastID th"
  by (simp add: GetItems_def Let_def split: option.split)

lemma GetItemByID_lastID: "lastID (snd (GetItemByID c th)) = lastID th"
  by (simp add: GetItemByID_def split: option.split)

lemma serve_lastID:
  "lastID (snd (serve r th)) =
     (if is_Create r \<and> fst (serve r th) = Returned Nothing_written then lastID th + 1
      else lastID th)"
proof (cases r)
  case (POST_TodoItem c)
  then show ?thesis
    using PostItem_outcome [of c th] PostItem_no_create [of c th] by auto
qed (simp_all add: PutItem_lastID DeleteItem_lastID GetItems_lastID GetItemByID_lastID)

lemma assigned_ids_increasing:
  "0 \<le> sint (lastID th) \<Longrightarrow>
   sint (lastID th) + int (length (filter is_Create rs)) < 2 ^ 63 \<Longrightarrow>
   sorted_wrt (<s) (assigned_ids rs th) \<and> (\<forall>i \<in> set (assigned_ids rs th). lastID th <s i)"
proof (induction rs arbitrary: th)
  case Nil
  then show ?case by simp
next
  case (Cons r rs)
  let ?th = "snd (serve r th)"
  show ?case
  proof (cases "is_Create r \<and> fst (serve r th) = Returned Nothing_written")
    case True
    then have l: "lastID ?th = lastID th + 1" by (simp add: serve_lastID)
    from True Cons.prems have "sint (lastID th) < 2 ^ 63 - 1" by simp
    then have s: "sint (lastID ?th) = sint (lastID th) + 1" by (simp add: l sint_succ)
    with Cons.prems True have "0 \<le> sint (lastID ?th)"
      and "sint (lastID ?th) + int (length (filter is_Create rs)) < 2 ^ 63"
      by simp_all
    from Cons.IH [OF this]
    have ih: "sorted_wrt (<s) (assigned_ids rs ?th)"
      and gt: "\<forall>i \<in> set (assigned_ids rs ?th). lastID ?th <s i" by simp_all
    from gt s have "\<forall>i \<in> set (assigned_ids rs ?th). lastID th <s i"
      by (auto simp: word_sless_alt)
    moreover from s have "lastID th <s lastID ?th" by (simp add: word_sless_alt)
    ultimately show ?thesis using True ih gt by simp
  next
    case False
    then have l: "lastID ?th = lastID th" by (simp add: serve_lastID)
    with Cons.prems have "0 \<le> sint (lastID ?th)"
      and "sint (lastID ?th) + int (length (filter is_Create rs)) < 2 ^ 63"
      by (simp_all split: if_splits)
    from Cons.IH [OF this] l False show ?thesis by auto
  qed
qed

lemma sorted_wrt_sless_distinct:
  fixes xs :: "go_int list"
  shows "sorted_wrt (<s) xs \<Longrightarrow> distinct xs"
  by (induction xs) (auto simp: word_sless_alt)

lemma run_append: "run (rs @ rs') th = run rs' (run rs th)"
  by (induction rs arbitrary: th) simp_all

lemma assigned_ids_append:
  "assigned_ids (rs @ rs') th = assigned_ids rs th @ assigned_ids rs' (run rs th)"
  by (induction rs arbitrary: th) simp_all

lemma create_then_delete:
  assumes u: "unlocked (mutex th)" and e: "items th = Map.empty" and k: "k = lastID th + 1"
  shows "run [POST_TodoItem (post_ctx a), DELETE_TodoItem (id_ctx k)] th = th\<lparr>lastID := k\<rparr>
       \<and> assigned_ids [POST_TodoItem (post_ctx a), DELETE_TodoItem (id_ctx k)] th = [k]"
proof -
  have b: "BindPost (post_ctx a) = Some \<lparr>post_Name = a\<rparr>"
    by (simp add: post_ctx_def)
  have i: "ParamId (id_ctx k) = Some k"
    by (simp add: id_ctx_def)
  let ?th = "snd (PostItem (post_ctx a) th)"
  have p: "PostItem (post_ctx a) th = (Returned Nothing_written,
      th\<lparr>items := [k \<mapsto> \<lparr>item_Id = k, item_Name = a, item_IsComplete = False\<rparr>],
         lastID := k\<rparr>)"
    using PostItem_unlocked [OF b u] by (simp add: e k)
  have u': "unlocked (mutex ?th)" using u by (simp add: p)
  have d: "snd (DeleteItem (id_ctx k) ?th) = th\<lparr>lastID := k\<rparr>"
    using DeleteItem_unlocked [OF i u'] by (simp add: p e)
  have l: "lastID ?th = k" by (simp add: p)
  show ?thesis
    by (simp add: d l) (simp add: p)
qed

lemma create_delete_round:
  assumes "empty_at th i"
  shows "run (create_delete i) th = th\<lparr>lastID := of_nat (Suc i)\<rparr>
       \<and> assigned_ids (create_delete i) th = [of_nat (Suc i)]"
proof -
  from assms have u: "unlocked (mutex th)" and e: "items th = Map.empty"
    and k: "of_nat (Suc i) = lastID th + 1"
    by (simp_all add: empty_at_def)
  from create_then_delete [OF u e k] show ?thesis
    unfolding create_delete_def .
qed

lemma empty_at_next: "empty_at th i \<Longrightarrow> empty_at (th\<lparr>lastID := of_nat j\<rparr>) j"
  by (simp add: empty_at_def)

lemma churn_Suc: "churn (Suc n) = churn n @ create_delete n"
  by (simp add: churn_def)

lemma run_churn: "empty_at th 0 \<Longrightarrow> run (churn n) th = th\<lparr>lastID := of_nat n\<rparr>"
proof (induction n)
  case 0
  then show ?case by (simp add: churn_def empty_at_def)
next
  case (Suc n)
  from Suc have r: "run (churn n) th = th\<lparr>lastID := of_nat n\<rparr>" by simp
  from Suc.prems have "empty_at (th\<lparr>lastID := of_nat n\<rparr>) n" by (rule empty_at_next)
  from create_delete_round [OF this] show ?case
    by (simp add: churn_Suc run_append r)
qed

lemma churn_wrap:
  assumes n: "n = 9223372036854775806"
  shows "\<not> sorted_wrt (<s) (assigned_ids (churn (Suc (Suc n))) (NewTodoHandler 0))"
proof -
  let ?th = "(NewTodoHandler 0)\<lparr>lastID := of_nat n\<rparr>"
  let ?th' = "?th\<lparr>lastID := of_nat (Suc n)\<rparr>"
  have e0: "empty_at (NewTodoHandler 0) 0"
    by (simp add: empty_at_def NewTodoHandler_def unlocked_def)
  then have e: "empty_at ?th n" by (rule empty_at_next)
  then have e': "empty_at ?th' (Suc n)" by (rule empty_at_next)
  have w: "(of_nat (Suc n) :: go_int) = 9223372036854775807"
    "(of_nat (Suc (Suc n)) :: go_int) = 9223372036854775808"
    unfolding n by simp_all
  have "assigned_ids (create_delete n @ create_delete (Suc n)) ?th
      = [of_nat (Suc n), of_nat (Suc (Suc n))]"
    using create_delete_round [OF e] create_delete_round [OF e']
    by (simp add: assigned_ids_append)
  then have "\<not> sorted_wrt (<s) (assigned_ids (create_delete n @ create_delete (Suc n)) ?th)"
    unfolding w by (simp add: word_sless_alt)
  moreover have "assigned_ids (churn (Suc (Suc n))) (NewTodoHandler 0)
      = assigned_ids (churn n) (NewTodoHandler 0)
        @ assigned_ids (create_delete n @ create_delete (Suc n)) ?th"
    by (simp only: churn_Suc append_assoc assigned_ids_append [of "churn n"] run_churn [OF e0])
  ultimately show ?thesis
    by (simp only: sorted_wrt_append) blast
qed

section \<open>Lock release\<close>

lemma GetItems_releases: "\<not> writer (mutex th) \<Longrightarrow> mutex (snd (GetItems kvs c th)) = mutex th"
  by (simp add: GetItems_free)

lemma GetItemByID_releases: "\<not> writer (mutex th) \<Longrightarrow> mutex (snd (GetItemByID c th)) = mutex th"
  by (simp add: GetItemByID_def RLock_free RUnlock_RLock split: option.split)

lemma PostItem_releases: "unlocked (mutex th) \<Longrightarrow> mutex (snd (PostItem c th)) = mutex th"
  by (simp add: PostItem_def Let_def Lock_unlocked Unlock_Lock split: option.split)

lemma DeleteItem_found_releases:
  "unlocked (mutex th) \<Longrightarrow> ParamId c = Some k \<Longrightarrow> items th k = Some item \<Longrightarrow>
   mutex (snd (DeleteItem c th)) = mutex th"
  by (simp add: DeleteItem_unlocked)

text \<open>
  C1. Every operation releases the lock it acquired on every exit path; in particular
  the not-found returns of Delete and Update release the writer lock.

  Update does (\<open>PutItem_releases\<close>, by its deferred unlock), and so do List, GetById and
  Create. Delete does not: \<open>DELETE /api/TodoItems/1\<close> on the empty store answers 404 and
  returns with the writer lock held.
\<close>

theorem DeleteItem_not_found_keeps_mutex:
  "DeleteItem (id_ctx 1) (NewTodoHandler 0) =
     (Returned (String StatusNotFound fmt_NotFound [1]),
      (NewTodoHandler 0)\<lparr>mutex := \<lparr>writer = True, readers = 0\<rparr>\<rparr>)"
  by (simp add: DeleteItem_def id_ctx_def NewTodoHandler_def Lock_def)

text \<open>From then on every handler that asks for the mutex blocks, a Create for one.\<close>

lemma PostItem_after_DeleteItem_not_found:
  "fst (PostItem (post_ctx ''a'') (snd (DeleteItem (id_ctx 1) (NewTodoHandler 0)))) = Blocked"
  by (simp add: DeleteItem_def PostItem_def post_ctx_def id_ctx_def NewTodoHandler_def Lock_def)

section \<open>List\<close>










text \<open>On that store the answer is the two items with id 1 first.\<close>

lemma GetItems_two_items:
  "fst (GetItems [(2, walk_dog), (1, buy_milk)] list_ctx two_items)
     = Returned (JSON_Collection StatusOK [buy_milk, walk_dog])"
  by (simp add: GetItems_def two_items_eq RLock_def sort_Sort_def insertionSort_def Len_def
      Less_def Swap_def word_sless_alt buy_milk_def walk_dog_def zero_TodoItem_def)

text \<open>
  C8. Two List calls with nothing in between give the same answer, whatever order the
  map hands its entries out in each: in every state the server can reach, with the
  mutex not held by a writer.
\<close>

theorem GetItems_repeatable:
  assumes "reachable th" and "\<not> writer (mutex th)"
    and "range_of (items th) kvs1" and "range_of (items th) kvs2"
  shows "GetItems kvs2 c2 (snd (GetItems kvs1 c1 th)) = GetItems kvs1 c1 th"
  using assms sort_Sort_range_unique [OF reachable_invariant [OF assms(1)] assms(3,4)]
  by (simp add: GetItems_free)

theorem GetItems_repeatable_witness:
  "reachable two_items \<and> \<not> writer (mutex two_items)
   \<and> range_of (items two_items) [(1, buy_milk), (2, walk_dog)]
   \<and> range_of (items two_items) [(2, walk_dog), (1, buy_milk)]
   \<and> GetItems [(2, walk_dog), (1, buy_milk)] list_ctx
        (snd (GetItems [(1, buy_milk), (2, walk_dog)] list_ctx two_items))
       = GetItems [(1, buy_milk), (2, walk_dog)] list_ctx two_items"
proof -
  have f: "\<not> writer (mutex two_items)"
    by (simp add: two_items_eq)
  have r1: "range_of (items two_items) [(1, buy_milk), (2, walk_dog)]"
    by (auto simp: two_items_eq range_of_def)
  have r2: "range_of (items two_items) [(2, walk_dog), (1, buy_milk)]"
    by (simp add: two_items_eq range_of_def)
  from GetItems_repeatable [OF reachable_two_items f r1 r2] reachable_two_items f r1 r2
  show ?thesis by blast
qed

text \<open>The \<open>GetItems\<close> that hands the map over hands the same map over both times.\<close>

lemma GetItems_raw_twice:
  "\<not> writer (mutex th) \<Longrightarrow> GetItems_raw c2 (snd (GetItems_raw c1 th)) = GetItems_raw c1 th"
  by (simp add: GetItems_raw_free)

section \<open>Create\<close>

text \<open>
  C6. Create with a body that parses succeeds: it writes no error, moves the counter up
  by one, stores under the new counter value an item with that id, the given name and
  \<open>IsComplete = false\<close>, and touches no other entry; the names already in the store play
  no part. (The mutex must be free, or the call blocks.)
\<close>

theorem PostItem_creates:
  assumes "BindPost c = Some p" and "unlocked (mutex th)"
  shows "fst (PostItem c th) = Returned Nothing_written
       \<and> lastID (snd (PostItem c th)) = lastID th + 1
       \<and> items (snd (PostItem c th)) (lastID (snd (PostItem c th)))
            = Some \<lparr>item_Id = lastID (snd (PostItem c th)), item_Name = post_Name p,
                    item_IsComplete = False\<rparr>
       \<and> (\<forall>k. k \<noteq> lastID th + 1 \<longrightarrow> items (snd (PostItem c th)) k = items th k)
       \<and> mutex (snd (PostItem c th)) = mutex th"
  using assms by (simp add: PostItem_unlocked)

theorem PostItem_creates_witness:
  "BindPost (post_ctx ''Buy milk'') = Some \<lparr>post_Name = ''Buy milk''\<rparr>
   \<and> unlocked (mutex two_items)
   \<and> fst (PostItem (post_ctx ''Buy milk'') two_items) = Returned Nothing_written
   \<and> lastID two_items = 2
   \<and> lastID (snd (PostItem (post_ctx ''Buy milk'') two_items)) = 3
   \<and> items (snd (PostItem (post_ctx ''Buy milk'') two_items)) 3
        = Some \<lparr>item_Id = 3, item_Name = ''Buy milk'', item_IsComplete = False\<rparr>
   \<and> items (snd (PostItem (post_ctx ''Buy milk'') two_items)) 1 = Some buy_milk"
proof -
  have b: "BindPost (post_ctx ''Buy milk'') = Some \<lparr>post_Name = ''Buy milk''\<rparr>"
    by (simp add: post_ctx_def)
  have u: "unlocked (mutex two_items)"
    by (simp add: two_items_eq unlocked_def)
  have l: "lastID two_items = 2" and i: "items two_items 1 = Some buy_milk"
    by (simp_all add: two_items_eq)
  let ?th = "snd (PostItem (post_ctx ''Buy milk'') two_items)"
  note c = PostItem_creates [OF b u]
  from c have c1: "fst (PostItem (post_ctx ''Buy milk'') two_items) = Returned Nothing_written"
    by (rule conjunct1)
  from c have "lastID ?th = lastID two_items + 1"
    by blast
  with l have c2: "lastID ?th = 3"
    by simp
  from c have "items ?th (lastID ?th)
      = Some \<lparr>item_Id = lastID ?th, item_Name = post_Name \<lparr>post_Name = ''Buy milk''\<rparr>,
               item_IsComplete = False\<rparr>"
    by blast
  then have c3: "items ?th 3
      = Some \<lparr>item_Id = 3, item_Name = ''Buy milk'', item_IsComplete = False\<rparr>"
    unfolding c2 by simp
  from c have "\<forall>k. k \<noteq> lastID two_items + 1 \<longrightarrow> items ?th k = items two_items k"
    by blast
  with l have "items ?th 1 = items two_items 1"
    by simp
  with i have c4: "items ?th 1 = Some buy_milk"
    by simp
  from b u c1 l c2 c3 c4 show ?thesis
    by blast
qed

section \<open>Update\<close>

text \<open>
  C4. Update on an id the store holds replaces that item's name and isComplete, so that
  GetById afterwards returns the new values, and leaves the id, the other items and the
  counter alone.

  The code does not: the tuple assignment writes back the value \<open>item\<close> had before its
  fields were assigned, so the map keeps the old item (\<open>PutItem_items\<close>). After
  \<open>Create("a")\<close>, \<open>Update(1, "X", true)\<close> is followed by a GetById(1) that still answers
  \<open>{1, "a", false}\<close>.
\<close>

theorem PutItem_writes_back_old_item:
  "fst (GetItemByID (id_ctx 1)
          (snd (PutItem (put_ctx 1 ''X'' True)
            (snd (PostItem (post_ctx ''a'') (NewTodoHandler 0))))))
     = Returned (JSON_Item StatusOK \<lparr>item_Id = 1, item_Name = ''a'', item_IsComplete = False\<rparr>)"
  by (simp add: GetItemByID_def PutItem_def PostItem_def id_ctx_def put_ctx_def post_ctx_def
      NewTodoHandler_def Lock_def Unlock_def RLock_def Let_def)

text \<open>
  C9. Update looks at the body before the path id: when the body does not parse the
  answer is 400 "Bad request", whether or not the path id is an integer, and the
  handler state is untouched.
\<close>

theorem PutItem_body_error_first:
  "BindPut c = None \<Longrightarrow>
   PutItem c th = (Returned (String StatusBadRequest ''Bad request'' []), th)"
  by (simp add: PutItem_def)

theorem PutItem_body_error_first_witness:
  "BindPut list_ctx = None \<and> ParamId list_ctx = None
   \<and> PutItem list_ctx two_items = (Returned (String StatusBadRequest ''Bad request'' []), two_items)"
proof -
  have b: "BindPut list_ctx = None" and p: "ParamId list_ctx = None"
    by (simp_all add: list_ctx_def)
  from PutItem_body_error_first [OF b, of two_items] b p show ?thesis
    by blast
qed

text \<open>
  C10. Update is idempotent: on a store that holds the id, a second Update with the
  same arguments right after the first answers the same and leaves the same state as
  the first alone. (It holds because Update leaves the store as it is, see C4.)
\<close>

theorem PutItem_idempotent:
  assumes "unlocked (mutex th)" and "ParamId c = Some k" and "BindPut c = Some p"
    and "items th k = Some item"
  shows "PutItem c (snd (PutItem c th)) = PutItem c th"
  using assms by (simp add: PutItem_unlocked)

theorem PutItem_idempotent_witness:
  "unlocked (mutex two_items)
   \<and> ParamId (put_ctx 1 ''Buy oat milk'' True) = Some 1
   \<and> BindPut (put_ctx 1 ''Buy oat milk'' True)
        = Some \<lparr>put_Name = ''Buy oat milk'', put_IsComplete = True\<rparr>
   \<and> items two_items 1 = Some buy_milk
   \<and> PutItem (put_ctx 1 ''Buy oat milk'' True)
        (snd (PutItem (put_ctx 1 ''Buy oat milk'' True) two_items))
       = PutItem (put_ctx 1 ''Buy oat milk'' True) two_items"
proof -
  have u: "unlocked (mutex two_items)"
    by (simp add: two_items_eq unlocked_def)
  have k: "ParamId (put_ctx 1 ''Buy oat milk'' True) = Some 1"
    and p: "BindPut (put_ctx 1 ''Buy oat milk'' True)
        = Some \<lparr>put_Name = ''Buy oat milk'', put_IsComplete = True\<rparr>"
    by (simp_all add: put_ctx_def)
  have i: "items two_items 1 = Some buy_milk"
    by (simp add: two_items_eq)
  from PutItem_idempotent [OF u k p i] u k p i show ?thesis
    by blast
qed

section \<open>Not found\<close>

text \<open>
  C5. GetById, Update and Delete answer 404 for exactly the same ids, those the store
  does not hold, and when they do the items and the counter are as before. (The mutex
  must be free, or the calls block; Update must be given a body that parses, or it
  answers 400 before it looks the id up.)
\<close>

theorem NotFound_for_absent_ids:
  assumes "unlocked (mutex th)" and "ParamId c = Some k" and "BindPut c = Some p"
  shows "(status_of (fst (GetItemByID c th)) = Some StatusNotFound \<longleftrightarrow> items th k = None)
       \<and> (status_of (fst (PutItem c th)) = Some StatusNotFound \<longleftrightarrow> items th k = None)
       \<and> (status_of (fst (DeleteItem c th)) = Some StatusNotFound \<longleftrightarrow> items th k = None)
       \<and> (items th k = None \<longrightarrow>
            items (snd (GetItemByID c th)) = items th \<and> lastID (snd (GetItemByID c th)) = lastID th
          \<and> items (snd (PutItem c th)) = items th \<and> lastID (snd (PutItem c th)) = lastID th
          \<and> items (snd (DeleteItem c th)) = items th \<and> lastID (snd (DeleteItem c th)) = lastID th)"
proof -
  from assms have f: "\<not> writer (mutex th)" by (simp add: unlocked_def)
  show ?thesis
    using assms
    by (cases "items th k")
      (simp_all add: GetItemByID_free [OF _ f] PutItem_unlocked DeleteItem_unlocked
        StatusOK_def StatusNotFound_def)
qed

theorem NotFound_for_absent_ids_witness:
  "unlocked (mutex two_items)
   \<and> ParamId (put_ctx 3 ''X'' True) = Some 3
   \<and> BindPut (put_ctx 3 ''X'' True) = Some \<lparr>put_Name = ''X'', put_IsComplete = True\<rparr>
   \<and> items two_items 3 = None
   \<and> status_of (fst (GetItemByID (put_ctx 3 ''X'' True) two_items)) = Some StatusNotFound
   \<and> status_of (fst (PutItem (put_ctx 3 ''X'' True) two_items)) = Some StatusNotFound
   \<and> status_of (fst (DeleteItem (put_ctx 3 ''X'' True) two_items)) = Some StatusNotFound
   \<and> items (snd (GetItemByID (put_ctx 3 ''X'' True) two_items)) = items two_items
   \<and> items (snd (PutItem (put_ctx 3 ''X'' True) two_items)) = items two_items
   \<and> items (snd (DeleteItem (put_ctx 3 ''X'' True) two_items)) = items two_items
   \<and> lastID (snd (DeleteItem (put_ctx 3 ''X'' True) two_items)) = lastID two_items"
proof -
  have u: "unlocked (mutex two_items)"
    by (simp add: two_items_eq unlocked_def)
  have k: "ParamId (put_ctx 3 ''X'' True) = Some 3"
    and p: "BindPut (put_ctx 3 ''X'' True) = Some \<lparr>put_Name = ''X'', put_IsComplete = True\<rparr>"
    by (simp_all add: put_ctx_def)
  have i: "items two_items 3 = None"
    by (simp add: two_items_eq)
  from NotFound_for_absent_ids [OF u k p] u k p i show ?thesis
    by blast
qed

text \<open>On an id the store holds none of the three answers 404.\<close>

lemma found_on_two_items:
  "status_of (fst (GetItemByID (put_ctx 1 ''X'' True) two_items)) = Some StatusOK
   \<and> status_of (fst (PutItem (put_ctx 1 ''X'' True) two_items)) = None
   \<and> status_of (fst (DeleteItem (put_ctx 1 ''X'' True) two_items)) = None"
proof -
  have u: "unlocked (mutex two_items)" and f: "\<not> writer (mutex two_items)"
    by (simp_all add: two_items_eq unlocked_def)
  have k: "ParamId (put_ctx 1 ''X'' True) = Some 1"
    and p: "BindPut (put_ctx 1 ''X'' True) = Some \<lparr>put_Name = ''X'', put_IsComplete = True\<rparr>"
    by (simp_all add: put_ctx_def)
  have i: "items two_items 1 = Some buy_milk"
    by (simp add: two_items_eq)
  show ?thesis
    by (simp add: GetItemByID_free [OF k f] PutItem_unlocked [OF p k u]
        DeleteItem_unlocked [OF k u] i)
qed

section \<open>Ids and keys\<close>

text \<open>
  C7. In every state the server can reach from \<open>NewTodoHandler(0)\<close>, every item is
  stored under its own id.
\<close>

theorem reachable_ids_match_keys: "reachable th \<Longrightarrow> ids_match_keys th"
  by (rule reachable_invariant)

theorem reachable_ids_match_keys_witness:
  "reachable two_items \<and> items two_items 2 = Some walk_dog \<and> ids_match_keys two_items
   \<and> item_Id walk_dog = 2"
proof -
  have i: "items two_items 2 = Some walk_dog"
    by (simp add: two_items_eq)
  from reachable_ids_match_keys [OF reachable_two_items]
  have m: "ids_match_keys two_items" .
  with i have "item_Id walk_dog = 2"
    unfolding ids_match_keys_def by blast
  with reachable_two_items i m show ?thesis
    by blast
qed

section \<open>Id assignment\<close>

text \<open>
  C3. Along every run from the initial store the ids Create hands out are strictly
  increasing and none is handed out twice, whatever else happens in between.

  As stated this fails where the counter wraps: \<open>lastID\<close> is a machine integer, and the
  Create after the one that handed out \<open>2 ^ 63 - 1\<close> hands out \<open>- 2 ^ 63\<close>. The run
  below never holds more than one item.
\<close>

theorem assigned_ids_wrap_around:
  "\<not> sorted_wrt (<s) (assigned_ids (churn (2 ^ 63)) (NewTodoHandler 0))"
proof -
  have "(2::nat) ^ 63 = Suc (Suc 9223372036854775806)" by simp
  then show ?thesis
    using churn_wrap [OF refl] by simp
qed

text \<open>
  C3, amended. Along every run from the initial store with fewer than \<open>2 ^ 63\<close> Create
  requests, the ids Create hands out are strictly increasing and none is handed out
  twice, whatever else (Delete included) happens in between.
\<close>

theorem assigned_ids_strictly_increasing:
  assumes "length (filter is_Create rs) < 2 ^ 63"
  shows "sorted_wrt (<s) (assigned_ids rs (NewTodoHandler 0))
       \<and> distinct (assigned_ids rs (NewTodoHandler 0))"
proof -
  have "sint (lastID (NewTodoHandler 0)) = 0" by (simp add: NewTodoHandler_def)
  moreover from assms have "int (length (filter is_Create rs)) < 2 ^ 63"
    by (metis of_nat_less_iff of_nat_numeral of_nat_power)
  ultimately have "sorted_wrt (<s) (assigned_ids rs (NewTodoHandler 0))"
    using assigned_ids_increasing [of "NewTodoHandler 0" rs] by simp
  then show ?thesis by (simp add: sorted_wrt_sless_distinct)
qed

text \<open>
  The spec's scenario: two Creates, an Update and a Delete of id 1, a third Create. The
  third item gets id 3, not the freed 1.
\<close>

lemma scenario_ids:
  "assigned_ids
     [POST_TodoItem (post_ctx ''Buy milk''), POST_TodoItem (post_ctx ''Walk dog''),
      PUT_TodoItem (put_ctx 1 ''Buy oat milk'' True), DELETE_TodoItem (id_ctx 1),
      POST_TodoItem (post_ctx ''Read book'')]
     (NewTodoHandler 0) = [1, 2, 3]"
  by (simp add: PostItem_def PutItem_def DeleteItem_def post_ctx_def put_ctx_def id_ctx_def
      NewTodoHandler_def Lock_def Unlock_def Let_def)

theorem assigned_ids_strictly_increasing_witness:
  "length (filter is_Create
     [POST_TodoItem (post_ctx ''Buy milk''), POST_TodoItem (post_ctx ''Walk dog''),
      PUT_TodoItem (put_ctx 1 ''Buy oat milk'' True), DELETE_TodoItem (id_ctx 1),
      POST_TodoItem (post_ctx ''Read book'')]) < 2 ^ 63
   \<and> sorted_wrt (<s) (assigned_ids
     [POST_TodoItem (post_ctx ''Buy milk''), POST_TodoItem (post_ctx ''Walk dog''),
      PUT_TodoItem (put_ctx 1 ''Buy oat milk'' True), DELETE_TodoItem (id_ctx 1),
      POST_TodoItem (post_ctx ''Read book'')] (NewTodoHandler 0))
   \<and> distinct (assigned_ids
     [POST_TodoItem (post_ctx ''Buy milk''), POST_TodoItem (post_ctx ''Walk dog''),
      PUT_TodoItem (put_ctx 1 ''Buy oat milk'' True), DELETE_TodoItem (id_ctx 1),
      POST_TodoItem (post_ctx ''Read book'')] (NewTodoHandler 0))"
proof -
  have n: "length (filter is_Create
     [POST_TodoItem (post_ctx ''Buy milk''), POST_TodoItem (post_ctx ''Walk dog''),
      PUT_TodoItem (put_ctx 1 ''Buy oat milk'' True), DELETE_TodoItem (id_ctx 1),
      POST_TodoItem (post_ctx ''Read book'')]) < 2 ^ 63"
    by simp
  from assigned_ids_strictly_increasing [OF n] n show ?thesis
    by blast
qed

end
